theory Spec2Isabelle
  imports Complex_Main
begin

section \<open>Shapes: polygons stored as sets of edges (shape.py)\<close>

subsection \<open>Data model\<close>

text \<open>
  A node is any hashable, comparable Python value; the model takes the node type as a
  linearly ordered type parameter. An edge, as an element of \<open>Shape.edges\<close>, is
  whatever hashable iterable the caller supplied: a 2-tuple (the annotation of
  \<open>Shape.__init__\<close>) or a frozenset (what \<open>node_list_to_edges\<close> builds). Python
  compares tuples by position and frozensets by content, and a tuple is never equal to a
  frozenset; the datatype below has exactly this equality. A Python frozenset is finite;
  the model uses the type of all sets, and every edge set that \<open>Shape\<close> builds from a
  sequence is finite.

  A coordinate is a numpy array read at the indices 0 and 1; it is modelled as a pair of
  real numbers, so the rounding of floating-point arithmetic is not part of the model.
  A coordinate dictionary is a partial map, and the field \<open>coords_dict\<close> of a shape is
  optional (\<open>None\<close> is Python's \<open>None\<close>, an abstract shape).
\<close>

datatype 'n edge = Tuple 'n 'n | Frozenset "'n set"

type_synonym coord = "real \<times> real"

type_synonym 'n coords = "'n \<rightharpoonup> coord"

datatype error = ValueError | KeyError | TypeError

record 'n shape =
  edges :: "'n edge set"
  coords_dict :: "'n coords option"

text \<open>Iterating over an edge or testing \<open>node in edge\<close> sees the edge's members.\<close>

fun edge_nodes :: "'n edge \<Rightarrow> 'n set" where
  "edge_nodes (Tuple a b) = {a, b}"
| "edge_nodes (Frozenset S) = S"

text \<open>\<open>Shape.__init__\<close>: the sequence of edges is frozen into a set.\<close>

definition Shape :: "'n edge list \<Rightarrow> 'n coords option \<Rightarrow> 'n shape" where
  "Shape es cd = \<lparr>edges = set es, coords_dict = cd\<rparr>"

text \<open>The property \<open>Shape.nodes\<close>.\<close>

definition nodes :: "'n shape \<Rightarrow> 'n set" where
  "nodes s = (\<Union>edge \<in> edges s. edge_nodes edge)"

subsection \<open>Merging\<close>

text \<open>
  \<open>d[node]\<close> for the field \<open>coords_dict\<close>: subscripting \<open>None\<close> is a TypeError, a
  missing key is a KeyError.
\<close>

definition subscript :: "'n coords option \<Rightarrow> 'n \<Rightarrow> error + coord" where
  "subscript d node =
     (case d of
        None \<Rightarrow> Inl TypeError
      | Some m \<Rightarrow> (case m node of None \<Rightarrow> Inl KeyError | Some c \<Rightarrow> Inr c))"

text \<open>
  The loop of \<open>Shape.merge\<close> over the common nodes. Python iterates a set in an order
  the language does not fix, so the order is an argument: the list of the common nodes in
  the order the loop visits them. Each round reads \<open>self.coords_dict[node]\<close>, then
  \<open>other.coords_dict[node]\<close>, then compares them.
\<close>

fun merge_check :: "'n coords option \<Rightarrow> 'n coords option \<Rightarrow> 'n list \<Rightarrow> error + unit" where
  "merge_check sd od [] = Inr ()"
| "merge_check sd od (node # rest) =
     (case subscript sd node of
        Inl e \<Rightarrow> Inl e
      | Inr c1 \<Rightarrow>
          (case subscript od node of
             Inl e \<Rightarrow> Inl e
           | Inr c2 \<Rightarrow> if c1 \<noteq> c2 then Inl ValueError else merge_check sd od rest))"

definition symmetric_difference :: "'a set \<Rightarrow> 'a set \<Rightarrow> 'a set" where
  "symmetric_difference A B = (A - B) \<union> (B - A)"

text \<open>
  \<open>Shape.merge\<close>. The argument \<open>common_nodes\<close> is the iteration order of the set
  \<open>self.nodes.intersection(other.nodes)\<close>; \<open>iterates\<close> says that a list is such an
  order.
\<close>

definition iterates :: "'a list \<Rightarrow> 'a set \<Rightarrow> bool" where
  "iterates xs S \<longleftrightarrow> distinct xs \<and> set xs = S"

definition merge :: "'n list \<Rightarrow> 'n shape \<Rightarrow> 'n shape \<Rightarrow> error + 'n shape" where
  "merge common_nodes self other =
     (let unique_edges = symmetric_difference (edges self) (edges other)
      in case merge_check (coords_dict self) (coords_dict other) common_nodes of
           Inl e \<Rightarrow> Inl e
         | Inr _ \<Rightarrow> Inr \<lparr>edges = unique_edges, coords_dict = coords_dict self\<rparr>)"

subsection \<open>Equality, hash, membership and length\<close>

text \<open>
  The magic methods \<open>__eq__\<close>, \<open>__hash__\<close>, \<open>__contains__\<close> and \<open>__len__\<close>. Python's
  built-in \<open>hash\<close> on frozensets is a function of the set; it is the argument
  \<open>hash\<close> of \<open>shape_hash\<close>.
\<close>

definition shape_eq :: "'n shape \<Rightarrow> 'n shape \<Rightarrow> bool" where
  "shape_eq self other \<longleftrightarrow> edges self = edges other"

definition shape_hash :: "('n edge set \<Rightarrow> int) \<Rightarrow> 'n shape \<Rightarrow> int" where
  "shape_hash hash self = hash (edges self)"

definition shape_contains :: "'n shape \<Rightarrow> 'n edge \<Rightarrow> bool" where
  "shape_contains self obj \<longleftrightarrow> obj \<in> edges self"

definition shape_len :: "'n shape \<Rightarrow> nat" where
  "shape_len self = card (edges self)"

subsection \<open>Signed area\<close>

text \<open>
  \<open>calculate_polygon_area\<close>: the shoelace sum over \<open>enumerate(node_list)\<close>. Each round
  looks up the coordinate of the node and of its cyclic successor; a node without an entry
  raises KeyError. The accumulator starts at 0 and the result is half of it.
\<close>

fun shoelace :: "'n coords \<Rightarrow> 'n list \<Rightarrow> (nat \<times> 'n) list \<Rightarrow> real \<Rightarrow> error + real" where
  "shoelace coords node_list [] signed_area = Inr signed_area"
| "shoelace coords node_list ((i, node) # rest) signed_area =
     (case coords node of
        None \<Rightarrow> Inl KeyError
      | Some this_coord \<Rightarrow>
          (let next_node = node_list ! ((i + 1) mod length node_list)
           in case coords next_node of
                None \<Rightarrow> Inl KeyError
              | Some next_coord \<Rightarrow>
                  shoelace coords node_list rest
                    (signed_area + (fst this_coord * snd next_coord
                                    - snd this_coord * fst next_coord))))"

definition calculate_polygon_area :: "'n list \<Rightarrow> 'n coords \<Rightarrow> error + real" where
  "calculate_polygon_area node_list coords =
     (case shoelace coords node_list (enumerate 0 node_list) 0 of
        Inl e \<Rightarrow> Inl e
      | Inr signed_area \<Rightarrow> Inr (0.5 * signed_area))"

subsection \<open>From node lists to edges and back\<close>

text \<open>
  \<open>node_list_to_edges\<close>: one frozenset per index of \<open>range(list_size + offset)\<close>, holding
  the node at the index and the node at the next index modulo the size. The range is empty
  when the bound is not positive, so no index is out of range and the modulus is never
  taken by zero.
\<close>

definition node_list_to_edges :: "'n list \<Rightarrow> bool \<Rightarrow> 'n edge set" where
  "node_list_to_edges node_list is_ring =
     (let list_size = length node_list;
          offset = (if is_ring then 0 else - 1)
      in (\<lambda>i. Frozenset {node_list ! i, node_list ! ((i + 1) mod list_size)})
           ` set [0 ..< nat (int list_size + offset)])"

text \<open>
  The inner loop of \<open>Shape.to_node_list\<close>: the union of the edges that contain the last
  node.
\<close>

definition connected_nodes :: "'n edge set \<Rightarrow> 'n \<Rightarrow> 'n set" where
  "connected_nodes E last_node =
     (\<Union>edge \<in> {edge \<in> E. last_node \<in> edge_nodes edge}. edge_nodes edge)"

text \<open>
  The while loop of \<open>Shape.to_node_list\<close>. \<open>min\<close> of an empty set raises ValueError. The
  list grows by one node each round, so the loop ends after at most \<open>len(self.edges)\<close>
  rounds.
\<close>

function to_node_list_loop :: "'n::linorder edge set \<Rightarrow> 'n list \<Rightarrow> error + 'n list" where
  "to_node_list_loop E node_list =
     (if length node_list < card E then
        (let last_node = last node_list;
             connected = connected_nodes E last_node - set node_list
         in if connected = {} then Inl ValueError
            else to_node_list_loop E (node_list @ [Min connected]))
      else Inr node_list)"
  by pat_completeness auto
termination
  by (relation "measure (\<lambda>(E, node_list). card E - length node_list)") auto

declare to_node_list_loop.simps [simp del]

text \<open>
  \<open>Shape.to_node_list\<close>. With a coordinate dictionary and a negative signed area the list
  is reversed and then rotated by the slices \<open>node_list[-1:] + node_list[:-1]\<close>.
\<close>

definition to_node_list :: "'n::linorder shape \<Rightarrow> error + 'n list" where
  "to_node_list self =
     (if nodes self = {} then Inl ValueError
      else case to_node_list_loop (edges self) [Min (nodes self)] of
             Inl e \<Rightarrow> Inl e
           | Inr node_list \<Rightarrow>
               (case coords_dict self of
                  None \<Rightarrow> Inr node_list
                | Some coords \<Rightarrow>
                    (case calculate_polygon_area node_list coords of
                       Inl e \<Rightarrow> Inl e
                     | Inr signed_area \<Rightarrow>
                         if signed_area < 0 then
                           (let reversed = rev node_list
                            in Inr (drop (length reversed - 1) reversed
                                    @ take (length reversed - 1) reversed))
                         else Inr node_list)))"

subsection \<open>The ring finder\<close>

text \<open>
  The class \<open>RingFinder\<close> and the face tracer it runs live in \<open>ring_finder.py\<close>, which the
  tests import and which is not among the sources. Every definition of this subsection is
  therefore written from the specification (sections 4.1 to 4.3 and 6), one definition
  per sentence of it; only \<open>Shape\<close>, \<open>merge\<close>, \<open>to_node_list\<close> and
  \<open>calculate_polygon_area\<close>, which they call, are the code's.
\<close>





















subsection \<open>Notions used in the statements and proofs\<close>




text \<open>
  The rings of the claims about \<open>to_node_list\<close>. \<open>ring_pairs L\<close> is the set of the pairs of
  cyclically adjacent nodes of the list \<open>L\<close>. An edge set is a simple ring along \<open>L\<close> when
  \<open>L\<close> lists at least three distinct nodes, the edges have exactly these pairs as members
  and there is one edge per pair: every node then lies on exactly two edges (lemma
  \<open>simple_ring_degree\<close>). Two node lists describe the same cycle when one is a rotation of
  the other or of its reversal.
\<close>

definition ring_pairs :: "'n list \<Rightarrow> 'n set set" where
  "ring_pairs L = (\<lambda>i. {L ! i, L ! (Suc i mod length L)}) ` {..<length L}"

definition simple_ring :: "'n edge set \<Rightarrow> 'n list \<Rightarrow> bool" where
  "simple_ring E L \<longleftrightarrow>
     distinct L \<and> 3 \<le> length L \<and> edge_nodes ` E = ring_pairs L \<and> card E = length L"

definition same_cycle :: "'n list \<Rightarrow> 'n list \<Rightarrow> bool" where
  "same_cycle ns L \<longleftrightarrow> (\<exists>k<length L. ns = rotate k L \<or> ns = rotate k (rev L))"

subsection \<open>Example shapes\<close>

text \<open>
  The two unit squares of \<open>test_two_squares\<close>, as rings over the test's coordinate
  dictionary: nodes 0, 1, 2, 3 and nodes 2, 3, 4, 5, sharing the edge between 2 and 3.
\<close>

definition test_coords :: "int coords" where
  "test_coords = [0 \<mapsto> (0, 0), 1 \<mapsto> (0, 1), 2 \<mapsto> (1, 1), 3 \<mapsto> (1, 0),
                  4 \<mapsto> (2, 0), 5 \<mapsto> (2, 1)]"

definition left_square :: "int shape" where
  "left_square =
     Shape [Frozenset {0, 1}, Frozenset {1, 2}, Frozenset {2, 3}, Frozenset {3, 0}]
       (Some test_coords)"

definition right_square :: "int shape" where
  "right_square =
     Shape [Frozenset {2, 3}, Frozenset {3, 4}, Frozenset {4, 5}, Frozenset {5, 2}]
       (Some test_coords)"



text \<open>Abstract shapes: the two squares and a third, far square, without coordinates.\<close>

definition abstract_left :: "int shape" where
  "abstract_left =
     Shape [Frozenset {0, 1}, Frozenset {1, 2}, Frozenset {2, 3}, Frozenset {3, 0}] None"

definition abstract_right :: "int shape" where
  "abstract_right =
     Shape [Frozenset {2, 3}, Frozenset {3, 4}, Frozenset {4, 5}, Frozenset {5, 2}] None"

definition abstract_far :: "int shape" where
  "abstract_far =
     Shape [Frozenset {6, 7}, Frozenset {7, 8}, Frozenset {8, 9}, Frozenset {9, 6}] None"



section \<open>Properties of merging\<close>

lemma merge_check_Inr_iff:
  "merge_check sd od ns = Inr u \<longleftrightarrow>
     (\<forall>n \<in> set ns. \<exists>c. subscript sd n = Inr c \<and> subscript od n = Inr c)"
  by (induction ns) (auto split: sum.splits)

lemma mem_symmetric_difference:
  "e \<in> symmetric_difference A B \<longleftrightarrow> (e \<in> A) \<noteq> (e \<in> B)"
  by (auto simp: symmetric_difference_def)

lemma nodes_left_square: "nodes left_square = {0, 1, 2, 3}"
  by (auto simp: nodes_def left_square_def Shape_def)

lemma nodes_right_square: "nodes right_square = {2, 3, 4, 5}"
  by (auto simp: nodes_def right_square_def Shape_def)

lemma common_nodes_squares: "iterates [2, 3] (nodes left_square \<inter> nodes right_square)"
  by (auto simp: iterates_def nodes_left_square nodes_right_square)

lemma coords_left_square: "coords_dict left_square = Some test_coords"
  by (simp add: left_square_def Shape_def)

lemma coords_right_square: "coords_dict right_square = Some test_coords"
  by (simp add: right_square_def Shape_def)

text \<open>
  Claim C2. When the coordinate dictionaries of two shapes give the same coordinate for
  every node the shapes share, \<open>A.merge(B)\<close> returns a shape, whatever the order in
  which the loop visits the common nodes; an edge is in the result if and only if it is
  in exactly one of the operands, and the result carries the coordinate dictionary of
  \<open>A\<close>.
\<close>

theorem merge_edges_symmetric_difference:
  assumes "iterates common_nodes (nodes A \<inter> nodes B)"
    and "\<forall>n \<in> nodes A \<inter> nodes B.
           \<exists>c. subscript (coords_dict A) n = Inr c \<and> subscript (coords_dict B) n = Inr c"
  shows "\<exists>R. merge common_nodes A B = Inr R
           \<and> (\<forall>e. e \<in> edges R \<longleftrightarrow> (e \<in> edges A) \<noteq> (e \<in> edges B))
           \<and> coords_dict R = coords_dict A"
proof -
  from assms have "merge_check (coords_dict A) (coords_dict B) common_nodes = Inr ()"
    by (simp add: merge_check_Inr_iff iterates_def)
  then show ?thesis
    by (simp add: merge_def mem_symmetric_difference)
qed

theorem merge_edges_symmetric_difference_witness:
  "iterates [2, 3] (nodes left_square \<inter> nodes right_square)
   \<and> (\<exists>R. merge [2, 3] left_square right_square = Inr R
          \<and> (\<forall>e. e \<in> edges R \<longleftrightarrow> (e \<in> edges left_square) \<noteq> (e \<in> edges right_square))
          \<and> coords_dict R = coords_dict left_square)"
proof -
  have "\<forall>n \<in> nodes left_square \<inter> nodes right_square.
          \<exists>c. subscript (coords_dict left_square) n = Inr c
            \<and> subscript (coords_dict right_square) n = Inr c"
    by (simp add: nodes_left_square nodes_right_square coords_left_square
        coords_right_square subscript_def test_coords_def)
  from merge_edges_symmetric_difference [OF common_nodes_squares this]
  show ?thesis using common_nodes_squares by simp
qed




lemma merge_squares:
  "merge [2, 3] left_square right_square =
     Inr \<lparr>edges = symmetric_difference (edges left_square) (edges right_square),
          coords_dict = Some test_coords\<rparr>"
  by (simp add: merge_def coords_left_square coords_right_square subscript_def test_coords_def)


lemma nodes_symmetric_difference:
  "edges R = symmetric_difference (edges A) (edges B) \<Longrightarrow> nodes R \<subseteq> nodes A \<union> nodes B"
  by (auto simp: nodes_def symmetric_difference_def)

lemma symmetric_difference_cancel:
  "symmetric_difference (symmetric_difference A B) B = A"
  by (auto simp: symmetric_difference_def)

text \<open>
  Claim C7. Let \<open>A\<close> and \<open>B\<close> have coordinate dictionaries that give every node of
  either shape a coordinate, the same in both. Then \<open>A.merge(B)\<close> returns a shape, merging
  \<open>B\<close> into that shape returns a shape as well, and this last shape equals \<open>A\<close> under
  \<open>__eq__\<close>; the orders in which the two loops visit their common nodes do not matter.
\<close>

theorem merge_involutive:
  assumes "coords_dict A = Some ca" and "coords_dict B = Some cb"
    and "\<forall>n \<in> nodes A \<union> nodes B. \<exists>c. ca n = Some c \<and> cb n = Some c"
    and "iterates order1 (nodes A \<inter> nodes B)"
  shows "\<exists>AB. merge order1 A B = Inr AB
           \<and> (\<forall>order2. iterates order2 (nodes AB \<inter> nodes B) \<longrightarrow>
                  (\<exists>R. merge order2 AB B = Inr R \<and> shape_eq R A))"
proof -
  define AB where "AB = \<lparr>edges = symmetric_difference (edges A) (edges B),
                            coords_dict = coords_dict A\<rparr>"
  have agree: "\<exists>c. subscript (coords_dict A) n = Inr c \<and> subscript (coords_dict B) n = Inr c"
    if "n \<in> nodes A \<union> nodes B" for n
  proof -
    from that assms(3) obtain c where "ca n = Some c" and "cb n = Some c"
      by blast
    then show ?thesis
      by (simp add: assms(1,2) subscript_def)
  qed
  have "merge_check (coords_dict A) (coords_dict B) order1 = Inr ()"
    using assms(4) agree by (auto simp: merge_check_Inr_iff iterates_def)
  then have first: "merge order1 A B = Inr AB"
    by (simp add: merge_def AB_def)
  have sub: "nodes AB \<subseteq> nodes A \<union> nodes B"
    by (rule nodes_symmetric_difference) (simp add: AB_def)
  have second: "\<exists>R. merge order2 AB B = Inr R \<and> shape_eq R A"
    if "iterates order2 (nodes AB \<inter> nodes B)" for order2
  proof -
    have "merge_check (coords_dict AB) (coords_dict B) order2 = Inr ()"
      using that agree sub by (auto simp: merge_check_Inr_iff iterates_def AB_def)
    then show ?thesis
      by (simp add: merge_def shape_eq_def AB_def symmetric_difference_cancel)
  qed
  from first second show ?thesis by blast
qed

lemma edges_merged_squares:
  "symmetric_difference (edges left_square) (edges right_square) =
     {Frozenset {3, 4}, Frozenset {4, 5}, Frozenset {5, 2},
      Frozenset {0, 1}, Frozenset {1, 2}, Frozenset {3, 0}}"
  unfolding symmetric_difference_def left_square_def right_square_def Shape_def
  by (simp add: doubleton_eq_iff insert_Diff_if)

lemma nodes_merged_squares:
  "nodes \<lparr>edges = symmetric_difference (edges left_square) (edges right_square),
          coords_dict = Some test_coords\<rparr> = {3, 4, 5, 2, 0, 1}"
  unfolding nodes_def by (simp add: edges_merged_squares insert_commute)

lemma common_nodes_merged_squares:
  "iterates [2, 3, 4, 5]
     (nodes \<lparr>edges = symmetric_difference (edges left_square) (edges right_square),
             coords_dict = Some test_coords\<rparr> \<inter> nodes right_square)"
  unfolding iterates_def nodes_merged_squares nodes_right_square
  by (simp add: insert_commute)

theorem merge_involutive_witness:
  "\<exists>AB R. iterates [2, 3] (nodes left_square \<inter> nodes right_square)
     \<and> merge [2, 3] left_square right_square = Inr AB
     \<and> iterates [2, 3, 4, 5] (nodes AB \<inter> nodes right_square)
     \<and> merge [2, 3, 4, 5] AB right_square = Inr R
     \<and> shape_eq R left_square"
proof -
  have total: "\<forall>n \<in> nodes left_square \<union> nodes right_square.
      \<exists>c. test_coords n = Some c \<and> test_coords n = Some c"
    by (simp add: nodes_left_square nodes_right_square test_coords_def)
  from merge_involutive [OF coords_left_square coords_right_square total common_nodes_squares]
  obtain AB where first: "merge [2, 3] left_square right_square = Inr AB"
    and second: "\<forall>order2. iterates order2 (nodes AB \<inter> nodes right_square) \<longrightarrow>
                  (\<exists>R. merge order2 AB right_square = Inr R \<and> shape_eq R left_square)"
    by blast
  from first have "iterates [2, 3, 4, 5] (nodes AB \<inter> nodes right_square)"
    using common_nodes_merged_squares by (simp add: merge_squares)
  with first second common_nodes_squares show ?thesis by blast
qed

lemma nodes_abstract_left: "nodes abstract_left = {0, 1, 2, 3}"
  by (auto simp: nodes_def abstract_left_def Shape_def)

lemma nodes_abstract_right: "nodes abstract_right = {2, 3, 4, 5}"
  by (auto simp: nodes_def abstract_right_def Shape_def)

lemma nodes_abstract_far: "nodes abstract_far = {6, 7, 8, 9}"
  by (auto simp: nodes_def abstract_far_def Shape_def)

text \<open>
  Claim C9. For two abstract shapes (both \<open>coords_dict\<close> are \<open>None\<close>) and any order of
  the loop: when the shapes share a node, the first round subscripts \<open>None\<close> and
  \<open>merge\<close> raises TypeError, not ValueError; when they share no node, the loop body never
  runs and \<open>merge\<close> returns the abstract shape of the symmetric difference.
\<close>

theorem merge_abstract_shapes:
  assumes "coords_dict A = None" and "coords_dict B = None"
    and "iterates common_nodes (nodes A \<inter> nodes B)"
  shows "(nodes A \<inter> nodes B \<noteq> {} \<longrightarrow> merge common_nodes A B = Inl TypeError)
       \<and> (nodes A \<inter> nodes B = {} \<longrightarrow>
            merge common_nodes A B =
              Inr \<lparr>edges = symmetric_difference (edges A) (edges B), coords_dict = None\<rparr>)"
proof (cases common_nodes)
  case Nil
  with assms show ?thesis
    by (simp add: iterates_def merge_def)
next
  case (Cons n rest)
  with assms(3) have "nodes A \<inter> nodes B \<noteq> {}"
    by (auto simp: iterates_def)
  moreover from Cons assms(1) have "merge common_nodes A B = Inl TypeError"
    by (simp add: merge_def subscript_def)
  ultimately show ?thesis by simp
qed

theorem merge_abstract_shapes_witness:
  "coords_dict abstract_left = None \<and> coords_dict abstract_right = None
   \<and> coords_dict abstract_far = None
   \<and> iterates [2, 3] (nodes abstract_left \<inter> nodes abstract_right)
   \<and> nodes abstract_left \<inter> nodes abstract_right \<noteq> {}
   \<and> merge [2, 3] abstract_left abstract_right = Inl TypeError
   \<and> iterates [] (nodes abstract_left \<inter> nodes abstract_far)
   \<and> nodes abstract_left \<inter> nodes abstract_far = {}
   \<and> merge [] abstract_left abstract_far =
       Inr \<lparr>edges = symmetric_difference (edges abstract_left) (edges abstract_far),
            coords_dict = None\<rparr>"
proof -
  have l: "coords_dict abstract_left = None" and r: "coords_dict abstract_right = None"
    and f: "coords_dict abstract_far = None"
    by (simp_all add: abstract_left_def abstract_right_def abstract_far_def Shape_def)
  have share: "iterates [2, 3] (nodes abstract_left \<inter> nodes abstract_right)"
    and ne: "nodes abstract_left \<inter> nodes abstract_right \<noteq> {}"
    by (auto simp: iterates_def nodes_abstract_left nodes_abstract_right)
  have apart: "iterates [] (nodes abstract_left \<inter> nodes abstract_far)"
    and em: "nodes abstract_left \<inter> nodes abstract_far = {}"
    by (auto simp: iterates_def nodes_abstract_left nodes_abstract_far)
  show ?thesis
    using merge_abstract_shapes [OF l r share] merge_abstract_shapes [OF l f apart]
      l r f share ne apart em
    by simp
qed

section \<open>Equality, hash, membership and length\<close>

text \<open>
  Claim C4, as the code has it. Equality, hash, membership and length of a shape are
  functions of the frozen edge set alone: two shapes built from edge sequences with the same
  elements are equal and have the same hash, whatever the order and repetition of the
  sequences and whatever their coordinate dictionaries; \<open>len\<close> is the number of distinct
  edges and \<open>e in shape\<close> holds exactly for the elements of the sequence. An edge given
  as a frozenset has no orientation. An edge given as a tuple keeps its orientation: the
  shapes of \<open>(a, b)\<close> and of \<open>(b, a)\<close> are equal only when \<open>a = b\<close>.
\<close>

theorem shape_magic_methods:
  "(set es1 = set es2 \<longrightarrow>
      shape_eq (Shape es1 cd1) (Shape es2 cd2)
      \<and> shape_hash hash (Shape es1 cd1) = shape_hash hash (Shape es2 cd2))
   \<and> (shape_eq (Shape es1 cd1) (Shape es2 cd2) \<longleftrightarrow> set es1 = set es2)
   \<and> shape_len (Shape es cd) = card (set es)
   \<and> (shape_contains (Shape es cd) e \<longleftrightarrow> e \<in> set es)
   \<and> shape_eq (Shape [Frozenset {a, b}] cd1) (Shape [Frozenset {b, a}] cd2)
   \<and> (shape_eq (Shape [Tuple a b] cd1) (Shape [Tuple b a] cd2) \<longleftrightarrow> a = b)"
  by (auto simp: shape_eq_def shape_hash_def shape_len_def shape_contains_def Shape_def)

theorem shape_magic_methods_witness:
  "set [Frozenset {0, 1}, Frozenset {1, 2 :: int}]
     = set [Frozenset {2, 1}, Frozenset {1, 0}, Frozenset {0, 1}]
   \<and> shape_eq (Shape [Frozenset {0, 1}, Frozenset {1, 2 :: int}] None)
        (Shape [Frozenset {2, 1}, Frozenset {1, 0}, Frozenset {0, 1}] (Some test_coords))
   \<and> shape_hash (\<lambda>E. int (card E)) (Shape [Frozenset {0, 1}, Frozenset {1, 2 :: int}] None)
       = shape_hash (\<lambda>E. int (card E))
           (Shape [Frozenset {2, 1}, Frozenset {1, 0}, Frozenset {0, 1}] (Some test_coords))"
proof -
  have same: "set [Frozenset {0, 1}, Frozenset {1, 2 :: int}]
     = set [Frozenset {2, 1}, Frozenset {1, 0}, Frozenset {0, 1}]"
    by (simp add: insert_commute)
  with shape_magic_methods [of "[Frozenset {0, 1}, Frozenset {1, 2 :: int}]"
      "[Frozenset {2, 1}, Frozenset {1, 0}, Frozenset {0, 1}]" None "Some test_coords"
      "\<lambda>E. int (card E)"]
  show ?thesis by blast
qed

text \<open>
  The claim as the specification words it fails for tuples: the shapes of the single edge
  \<open>(0, 1)\<close> and of the single edge \<open>(1, 0)\<close> are not equal.
\<close>

theorem tuple_orientation_counterexample:
  "\<not> shape_eq (Shape [Tuple (0::int) 1] None) (Shape [Tuple 1 0] None)"
  by (simp add: shape_eq_def Shape_def)

section \<open>Properties of the signed area\<close>




lemma zip_rotate1:
  "length xs = length ys \<Longrightarrow> zip (rotate1 xs) (rotate1 ys) = rotate1 (zip xs ys)"
  by (cases xs; cases ys) simp_all








lemma area_square_rev: "calculate_polygon_area [3, 2, 1, 0] test_coords = Inr 1"
  by (simp add: calculate_polygon_area_def test_coords_def enumerate_simps)





section \<open>Properties of the node list of a ring\<close>

lemma connected_nodes_image:
  "connected_nodes E v = \<Union> {S \<in> edge_nodes ` E. v \<in> S}"
  by (auto simp: connected_nodes_def)

lemma mod_below: "(i::nat) < n \<Longrightarrow> m mod n < n"
  by (cases n) simp_all

lemma pred_index:
  assumes "i < n" and "j = Suc i mod n"
  shows "i = (j + n - 1) mod n"
proof (cases "Suc i = n")
  case True
  with assms show ?thesis by simp
next
  case False
  with assms have "Suc i < n" by simp
  with assms show ?thesis by simp
qed

lemma succ_pred_index:
  assumes "j < n"
  shows "Suc ((j + n - 1) mod n) mod n = j"
proof (cases j)
  case 0
  with assms show ?thesis by simp
next
  case (Suc j')
  with assms show ?thesis by simp
qed

lemma ring_neighbours:
  assumes "distinct L" and "j < length L"
  shows "\<Union> {S \<in> ring_pairs L. L ! j \<in> S}
         = {L ! ((j + length L - 1) mod length L), L ! j, L ! (Suc j mod length L)}"
    (is "?lhs = ?rhs")
proof
  let ?n = "length L"
  show "?lhs \<subseteq> ?rhs"
  proof
    fix v assume "v \<in> ?lhs"
    then obtain i where i: "i < ?n" and v: "v \<in> {L ! i, L ! (Suc i mod ?n)}"
      and j: "L ! j \<in> {L ! i, L ! (Suc i mod ?n)}"
      by (auto simp: ring_pairs_def)
    from i have s: "Suc i mod ?n < ?n" by (rule mod_below)
    from j consider "L ! j = L ! i" | "L ! j = L ! (Suc i mod ?n)" by blast
    then show "v \<in> ?rhs"
    proof cases
      case 1
      with assms i have "j = i" by (simp add: nth_eq_iff_index_eq)
      with v show ?thesis by auto
    next
      case 2
      with assms s have "j = Suc i mod ?n" by (simp add: nth_eq_iff_index_eq)
      from pred_index [OF i this] v this show ?thesis by auto
    qed
  qed
  show "?rhs \<subseteq> ?lhs"
  proof -
    let ?p = "(j + ?n - 1) mod ?n"
    from assms(2) have p: "?p < ?n" by (rule mod_below)
    have sp: "Suc ?p mod ?n = j" using assms(2) by (rule succ_pred_index)
    have "{L ! j, L ! (Suc j mod ?n)} \<in> {S \<in> ring_pairs L. L ! j \<in> S}"
      using assms(2) by (auto simp: ring_pairs_def)
    moreover have "{L ! ?p, L ! j} \<in> {S \<in> ring_pairs L. L ! j \<in> S}"
      using p sp by (auto simp: ring_pairs_def image_iff intro!: bexI [of _ ?p])
    ultimately show ?thesis by blast
  qed
qed

lemma nth_notin_take:
  assumes "distinct M" and "k < length M"
  shows "M ! k \<notin> set (take k M)"
proof
  assume "M ! k \<in> set (take k M)"
  then obtain i where "i < k" and "M ! i = M ! k"
    using assms(2) by (auto simp: in_set_conv_nth)
  with assms show False
    by (simp add: nth_eq_iff_index_eq)
qed

lemma nth_in_take: "i < k \<Longrightarrow> k \<le> length M \<Longrightarrow> M ! i \<in> set (take k M)"
  by (auto simp: in_set_conv_nth intro!: exI [of _ i])

lemma first_step_set:
  assumes "distinct M" and "3 \<le> length M" and "edge_nodes ` E = ring_pairs M"
  shows "connected_nodes E (M ! 0) - set (take 1 M) = {M ! (length M - 1), M ! 1}"
proof -
  let ?n = "length M"
  from assms(2) have z: "0 < ?n" by linarith
  have "(0 + ?n - 1) mod ?n = ?n - 1" and "Suc 0 mod ?n = 1"
    using assms(2) by simp_all
  with ring_neighbours [OF assms(1) z]
  have c: "connected_nodes E (M ! 0) = {M ! (?n - 1), M ! 0, M ! 1}"
    by (simp add: connected_nodes_image assms(3))
  have l: "?n - 1 < ?n" and o: "1 < ?n" and nz: "?n - 1 \<noteq> 0"
    using assms(2) by linarith+
  have "M ! (?n - 1) \<noteq> M ! 0"
    using nth_eq_iff_index_eq [OF assms(1) l z] nz by simp
  moreover have "M ! 1 \<noteq> M ! 0"
    using nth_eq_iff_index_eq [OF assms(1) o z] by simp
  moreover have "take 1 M = [M ! 0]"
    using z by (cases M) simp_all
  ultimately show ?thesis
    using c by auto
qed

lemma later_step_set:
  assumes "distinct M" and "edge_nodes ` E = ring_pairs M"
    and "2 \<le> k" and "k < length M"
  shows "connected_nodes E (M ! (k - 1)) - set (take k M) = {M ! k}"
proof -
  let ?n = "length M"
  from assms(3,4) have j: "k - 1 < ?n" by simp
  have "k - 1 + ?n - 1 = ?n + (k - 2)"
    using assms(3) by simp
  then have "(k - 1 + ?n - 1) mod ?n = (?n + (k - 2)) mod ?n"
    by (simp only:)
  also have "\<dots> = k - 2"
    using assms(4) by simp
  finally have "(k - 1 + ?n - 1) mod ?n = k - 2" .
  moreover have "Suc (k - 1) mod ?n = k"
    using assms(3,4) by simp
  ultimately have c: "connected_nodes E (M ! (k - 1)) = {M ! (k - 2), M ! (k - 1), M ! k}"
    using ring_neighbours [OF assms(1) j] by (simp add: connected_nodes_image assms(2))
  have "M ! (k - 2) \<in> set (take k M)" and "M ! (k - 1) \<in> set (take k M)"
    using assms(3,4) by (simp_all add: nth_in_take)
  moreover have "M ! k \<notin> set (take k M)"
    using assms(1,4) by (rule nth_notin_take)
  ultimately show ?thesis
    using c by auto
qed

lemma loop_on_ring:
  assumes "distinct M" and "3 \<le> length M" and "edge_nodes ` E = ring_pairs M"
    and "card E = length M" and "M ! 1 < M ! (length M - 1)"
  shows "1 \<le> k \<Longrightarrow> k \<le> length M \<Longrightarrow> to_node_list_loop E (take k M) = Inr M"
proof (induction "length M - k" arbitrary: k)
  case 0
  then have "take k M = M" by simp
  then show ?case
    by (subst to_node_list_loop.simps) (simp add: assms(4))
next
  case (Suc d)
  then have k: "k < length M" by simp
  have "take k M \<noteq> []" and "length (take k M) = k"
    using Suc.prems k by auto
  then have "last (take k M) = take k M ! (k - 1)"
    by (simp add: last_conv_nth)
  then have last: "last (take k M) = M ! (k - 1)"
    using Suc.prems by simp
  have step: "connected_nodes E (M ! (k - 1)) - set (take k M) \<noteq> {}
        \<and> Min (connected_nodes E (M ! (k - 1)) - set (take k M)) = M ! k"
  proof (cases "k = 1")
    case True
    have "Min {M ! (length M - 1), M ! 1} = min (M ! (length M - 1)) (M ! 1)"
      by simp
    also have "\<dots> = M ! 1"
      using assms(5) by (intro min.absorb2 less_imp_le)
    finally have "Min {M ! (length M - 1), M ! 1} = M ! 1" .
    with first_step_set [OF assms(1-3)] show ?thesis
      unfolding True by simp
  next
    case False
    with Suc.prems have "2 \<le> k" by simp
    from later_step_set [OF assms(1,3) this k] show ?thesis
      by simp
  qed
  have next_list: "take k M @ [M ! k] = take (Suc k) M"
    using k by (simp add: take_Suc_conv_app_nth)
  have "to_node_list_loop E (take (Suc k) M) = Inr M"
    using Suc.hyps(2) Suc.prems k by (intro Suc.hyps(1)) simp_all
  then show ?case
    using k step last
    by (subst to_node_list_loop.simps) (simp add: assms(4) Let_def next_list)
qed

lemma same_cycleI1: "L \<noteq> [] \<Longrightarrow> same_cycle (rotate k L) L"
  unfolding same_cycle_def
  by (rule exI [of _ "k mod length L"]) (simp add: rotate_conv_mod [symmetric])

lemma same_cycleI2: "L \<noteq> [] \<Longrightarrow> same_cycle (rotate k (rev L)) L"
  unfolding same_cycle_def
  using rotate_conv_mod [of k "rev L"] by (intro exI [of _ "k mod length L"]) simp

lemma ring_pairs_zip:
  "ring_pairs L = (\<lambda>(a, b). {a, b}) ` set (zip L (rotate1 L))"
  unfolding ring_pairs_def set_zip
  by (auto simp: nth_rotate1 image_iff intro!: exI)

lemma ring_pairs_rotate1: "ring_pairs (rotate1 L) = ring_pairs L"
  by (simp add: ring_pairs_zip zip_rotate1)

lemma ring_pairs_rotate: "ring_pairs (rotate k L) = ring_pairs L"
  by (induction k) (simp_all add: ring_pairs_rotate1)

lemma ring_pairs_rev: "ring_pairs (rev L) = ring_pairs L"
proof (cases L rule: rev_cases)
  case Nil
  then show ?thesis by simp
next
  case (snoc xs x)
  define M where "M = x # xs"
  have L: "L = rotate1 M" and R: "rotate1 (rev L) = rev M"
    by (simp_all add: snoc M_def)
  have "ring_pairs (rev L) = (\<lambda>(a, b). {a, b}) ` set (zip (rev L) (rev M))"
    by (simp add: ring_pairs_zip R)
  also have "\<dots> = (\<lambda>(a, b). {a, b}) ` set (zip (rotate1 M) M)"
    by (simp add: zip_rev L)
  also have "\<dots> = (\<lambda>(a, b). {a, b}) ` set (zip M (rotate1 M))"
    by (force simp: set_zip image_iff insert_commute)
  also have "\<dots> = ring_pairs L"
    by (simp add: ring_pairs_zip [symmetric] L ring_pairs_rotate1)
  finally show ?thesis .
qed

lemma Union_ring_pairs: "\<Union> (ring_pairs L) = set L"
proof
  show "\<Union> (ring_pairs L) \<subseteq> set L"
    by (auto simp: ring_pairs_def intro: nth_mem mod_below)
  show "set L \<subseteq> \<Union> (ring_pairs L)"
    by (auto simp: ring_pairs_def in_set_conv_nth)
qed

lemma flipped_nth:
  assumes "3 \<le> length M"
  shows "rotate (length M - 1) (rev M) ! 0 = M ! 0"
    and "rotate (length M - 1) (rev M) ! 1 = M ! (length M - 1)"
    and "rotate (length M - 1) (rev M) ! (length M - 1) = M ! 1"
proof -
  from assms obtain x xs where M: "M = x # xs" and xs: "2 \<le> length xs"
    by (cases M) auto
  have F: "rotate (length M - 1) (rev M) = x # rev xs"
    using rotate_append [of "rev xs" "[x]"] by (simp add: M)
  from xs have "0 < length xs" and "length xs - 1 < length xs"
    by linarith+
  then show "rotate (length M - 1) (rev M) ! 0 = M ! 0"
    and "rotate (length M - 1) (rev M) ! 1 = M ! (length M - 1)"
    and "rotate (length M - 1) (rev M) ! (length M - 1) = M ! 1"
    unfolding F by (simp_all add: M rev_nth nth_Cons')
qed

lemma ring_canonical:
  assumes "distinct L" and "3 \<le> length L"
  obtains M where "distinct M" and "length M = length L" and "set M = set L"
    and "ring_pairs M = ring_pairs L" and "M ! 0 = Min (set L)"
    and "M ! 1 < M ! (length M - 1)" and "same_cycle M L"
proof -
  let ?n = "length L"
  from assms(2) have ne: "L \<noteq> []" by auto
  then have "Min (set L) \<in> set L" by simp
  then obtain m where m: "m < ?n" and Lm: "L ! m = Min (set L)"
    by (auto simp: in_set_conv_nth)
  define M1 where "M1 = rotate m L"
  have z: "0 < ?n" and o: "1 < ?n" and l: "?n - 1 < ?n" and ol: "1 \<noteq> ?n - 1"
    using assms(2) by linarith+
  have d1: "distinct M1" and n1: "length M1 = ?n" and s1: "set M1 = set L"
    and r1: "ring_pairs M1 = ring_pairs L"
    using assms(1) by (simp_all add: M1_def ring_pairs_rotate)
  have h1: "M1 ! 0 = Min (set L)"
    using m z Lm by (simp add: M1_def nth_rotate)
  show thesis
  proof (cases "M1 ! 1 < M1 ! (?n - 1)")
    case True
    show thesis
      by (rule that [of M1]) (use d1 n1 s1 r1 h1 True ne in \<open>simp_all add: M1_def same_cycleI1\<close>)
  next
    case False
    have "M1 ! 1 \<noteq> M1 ! (?n - 1)"
      using nth_eq_iff_index_eq [of M1 1 "?n - 1"] d1 n1 o l ol by simp
    with False have lt: "M1 ! (?n - 1) < M1 ! 1" by simp
    define M2 where "M2 = rotate (?n - 1) (rev M1)"
    have h2: "M2 ! 0 = M1 ! 0" and a2: "M2 ! 1 = M1 ! (?n - 1)"
      and b2: "M2 ! (?n - 1) = M1 ! 1"
      using flipped_nth [of M1] n1 assms(2) by (simp_all add: M2_def)
    have "rev M1 = rotate (?n - m) (rev L)"
    proof (cases "m = 0")
      case True
      then show ?thesis by (simp add: M1_def)
    next
      case False
      with m have "?n - (?n - m) mod ?n = m" by simp
      then show ?thesis by (simp add: M1_def rotate_rev)
    qed
    then have "M2 = rotate (?n - 1 + (?n - m)) (rev L)"
      by (simp add: M2_def rotate_rotate)
    then have c2: "same_cycle M2 L"
      using ne by (simp add: same_cycleI2)
    show thesis
      by (rule that [of M2])
        (use d1 n1 s1 r1 h1 h2 a2 b2 lt c2 in \<open>simp_all add: M2_def ring_pairs_rotate ring_pairs_rev\<close>)
  qed
qed

lemma loop_simple_ring:
  assumes "simple_ring E L"
  shows "\<exists>M. to_node_list_loop E [Min (set L)] = Inr M \<and> same_cycle M L
           \<and> M ! 0 = Min (set L) \<and> length M = length L \<and> set M = set L"
proof -
  from assms have d: "distinct L" and n: "3 \<le> length L"
    and e: "edge_nodes ` E = ring_pairs L" and c: "card E = length L"
    by (simp_all add: simple_ring_def)
  from d n obtain M where M: "distinct M" "length M = length L" "set M = set L"
    "ring_pairs M = ring_pairs L" "M ! 0 = Min (set L)"
    "M ! 1 < M ! (length M - 1)" "same_cycle M L"
    by (rule ring_canonical)
  from M(2) n have "take 1 M = [M ! 0]"
    by (cases M) simp_all
  moreover have "to_node_list_loop E (take 1 M) = Inr M"
    using M n e c by (intro loop_on_ring) simp_all
  ultimately show ?thesis
    using M by auto
qed

lemma nodes_simple_ring: "simple_ring (edges s) L \<Longrightarrow> nodes s = set L"
  by (simp add: nodes_def simple_ring_def Union_ring_pairs)


lemma succ_not_pred:
  assumes "3 \<le> n" and "j < n"
  shows "Suc j mod n \<noteq> (j + n - 1) mod n"
proof (cases "Suc j = n")
  case True
  then have "j + n - 1 = n + (n - 2)" using assms(1) by simp
  then have "(j + n - 1) mod n = (n + (n - 2)) mod n" by (simp only:)
  also have "\<dots> = (n - 2) mod n" by (rule mod_add_self1)
  also have "\<dots> = n - 2" using assms(1) by (intro mod_less) linarith
  finally show ?thesis using True assms(1) by simp
next
  case False
  with assms have s: "Suc j mod n = Suc j" by simp
  show ?thesis
  proof (cases j)
    case 0
    with assms s show ?thesis by simp
  next
    case (Suc i)
    then have "j + n - 1 = n + i" by simp
    then have "(j + n - 1) mod n = (n + i) mod n" by (simp only:)
    also have "\<dots> = i mod n" by (rule mod_add_self1)
    also have "\<dots> = i" using assms(2) Suc by simp
    finally show ?thesis using s Suc by simp
  qed
qed

lemma ring_edge_inj:
  assumes "distinct L" and "3 \<le> length L"
  shows "inj_on (\<lambda>i. {L ! i, L ! (Suc i mod length L)}) {..<length L}"
proof (rule inj_onI)
  let ?n = "length L"
  fix i j assume i: "i \<in> {..<?n}" and j: "j \<in> {..<?n}"
    and eq: "{L ! i, L ! (Suc i mod ?n)} = {L ! j, L ! (Suc j mod ?n)}"
  from i j have il: "i < ?n" and jl: "j < ?n" by simp_all
  then have si: "Suc i mod ?n < ?n" and sj: "Suc j mod ?n < ?n"
    by (simp_all add: mod_below)
  from eq consider "L ! i = L ! j" | "L ! i = L ! (Suc j mod ?n)" "L ! (Suc i mod ?n) = L ! j"
    by (auto simp: doubleton_eq_iff)
  then show "i = j"
  proof cases
    case 1
    with assms(1) il jl show ?thesis by (simp add: nth_eq_iff_index_eq)
  next
    case 2
    with assms(1) il jl si sj have a: "i = Suc j mod ?n" and b: "j = Suc i mod ?n"
      by (simp_all add: nth_eq_iff_index_eq)
    from pred_index [OF il b] a have "Suc j mod ?n = (j + ?n - 1) mod ?n" by simp
    with succ_not_pred [OF assms(2) jl] show ?thesis by simp
  qed
qed

lemma node_list_to_edges_ring:
  "node_list_to_edges L True = (\<lambda>i. Frozenset {L ! i, L ! (Suc i mod length L)}) ` {..<length L}"
  by (simp add: node_list_to_edges_def Let_def lessThan_atLeast0)

lemma simple_ring_node_list_to_edges:
  assumes "distinct L" and "3 \<le> length L"
  shows "simple_ring (node_list_to_edges L True) L"
proof -
  have "edge_nodes ` node_list_to_edges L True = ring_pairs L"
    by (simp add: node_list_to_edges_ring ring_pairs_def image_image)
  moreover have "inj_on (\<lambda>i. Frozenset {L ! i, L ! (Suc i mod length L)}) {..<length L}"
    using ring_edge_inj [OF assms] by (auto simp: inj_on_def)
  then have "card (node_list_to_edges L True) = length L"
    by (simp add: node_list_to_edges_ring card_image)
  ultimately show ?thesis
    using assms by (simp add: simple_ring_def)
qed




lemma pred_not_self:
  assumes "2 \<le> n" and "j < n"
  shows "(j + n - 1) mod n \<noteq> (j :: nat)"
proof (cases j)
  case 0
  with assms show ?thesis by simp
next
  case (Suc i)
  then have "j + n - 1 = n + i" by simp
  then have "(j + n - 1) mod n = (n + i) mod n" by (simp only:)
  also have "\<dots> = i mod n" by (rule mod_add_self1)
  also have "\<dots> = i" using assms(2) Suc by simp
  finally show ?thesis using Suc by simp
qed

lemma ring_pairs_at:
  assumes "distinct L" and "j < length L"
  shows "{S \<in> ring_pairs L. L ! j \<in> S}
         = {{L ! j, L ! (Suc j mod length L)},
            {L ! ((j + length L - 1) mod length L), L ! j}}"
    (is "?lhs = ?rhs")
proof
  let ?n = "length L"
  let ?p = "(j + ?n - 1) mod ?n"
  show "?lhs \<subseteq> ?rhs"
  proof
    fix S assume "S \<in> ?lhs"
    then obtain i where i: "i < ?n" and S: "S = {L ! i, L ! (Suc i mod ?n)}"
      and j: "L ! j \<in> {L ! i, L ! (Suc i mod ?n)}"
      by (auto simp: ring_pairs_def)
    from i have s: "Suc i mod ?n < ?n" by (rule mod_below)
    from j consider "L ! j = L ! i" | "L ! j = L ! (Suc i mod ?n)" by blast
    then show "S \<in> ?rhs"
    proof cases
      case 1
      with assms i have "j = i" by (simp add: nth_eq_iff_index_eq)
      with S show ?thesis by simp
    next
      case 2
      with assms s have e: "j = Suc i mod ?n" by (simp add: nth_eq_iff_index_eq)
      from pred_index [OF i e] have ip: "i = ?p" .
      have "Suc ?p mod ?n = j" using assms(2) by (rule succ_pred_index)
      with S have "S = {L ! ?p, L ! j}" unfolding ip by (simp only:)
      then show ?thesis by blast
    qed
  qed
  show "?rhs \<subseteq> ?lhs"
  proof -
    from assms(2) have p: "?p < ?n" by (rule mod_below)
    have sp: "Suc ?p mod ?n = j" using assms(2) by (rule succ_pred_index)
    have "{L ! j, L ! (Suc j mod ?n)} \<in> ?lhs"
      using assms(2) by (auto simp: ring_pairs_def)
    moreover have "{L ! ?p, L ! j} \<in> ?lhs"
      using p sp by (auto simp: ring_pairs_def image_iff intro!: bexI [of _ ?p])
    ultimately show ?thesis by blast
  qed
qed

lemma simple_ring_degree:
  assumes "simple_ring E L" and "v \<in> set L"
  shows "card {edge \<in> E. v \<in> edge_nodes edge} = 2"
proof -
  let ?n = "length L"
  from assms(1) have d: "distinct L" and n: "3 \<le> ?n"
    and e: "edge_nodes ` E = ring_pairs L" and c: "card E = ?n"
    by (simp_all add: simple_ring_def)
  from c n have fin: "finite E"
    by (metis card.infinite not_numeral_le_zero)
  have "card (ring_pairs L) = ?n"
    unfolding ring_pairs_def using ring_edge_inj [OF d n] by (simp add: card_image)
  with e c have "card (edge_nodes ` E) = card E" by simp
  with fin have inj: "inj_on edge_nodes E" by (rule eq_card_imp_inj_on)
  from assms(2) obtain j where j: "j < ?n" and v: "v = L ! j"
    by (auto simp: in_set_conv_nth)
  let ?p = "(j + ?n - 1) mod ?n"
  from j have p: "?p < ?n" by (rule mod_below)
  have "edge_nodes ` {edge \<in> E. v \<in> edge_nodes edge} = {S \<in> ring_pairs L. v \<in> S}"
    using e by auto
  moreover have "inj_on edge_nodes {edge \<in> E. v \<in> edge_nodes edge}"
    using inj by (rule inj_on_subset) auto
  ultimately have "card {edge \<in> E. v \<in> edge_nodes edge} = card {S \<in> ring_pairs L. v \<in> S}"
    by (metis card_image)
  also have "{S \<in> ring_pairs L. v \<in> S}
      = {{L ! j, L ! (Suc j mod ?n)}, {L ! ?p, L ! j}}"
    unfolding v by (rule ring_pairs_at [OF d j])
  also have "card \<dots> = 2"
  proof -
    have "?p \<noteq> j" using n j by (intro pred_not_self) simp_all
    with inj_onD [OF ring_edge_inj [OF d n], of ?p j] p j
    have "{L ! ?p, L ! (Suc ?p mod ?n)} \<noteq> {L ! j, L ! (Suc j mod ?n)}"
      by auto
    moreover have "Suc ?p mod ?n = j" using j by (rule succ_pred_index)
    ultimately show ?thesis by simp
  qed
  finally show ?thesis .
qed




lemma to_node_list_loop_ring:
  assumes "simple_ring (edges s) L"
  shows "\<exists>M. to_node_list_loop (edges s) [Min (nodes s)] = Inr M \<and> same_cycle M L
           \<and> M ! 0 = Min (nodes s) \<and> length M = length L \<and> set M = nodes s"
  using loop_simple_ring [OF assms] nodes_simple_ring [OF assms] by simp


lemma index_set_4: "set [0 ..< nat (int (length [a, b, c, d]) + 0)] = {0, 1, 2, 3}"
  by auto








text \<open>
  Claim C8. For a list \<open>L\<close> of at least three distinct nodes, the abstract shape built
  from the edges of \<open>node_list_to_edges(L)\<close>, in whatever order the constructor reads
  them, has a node list, and this node list is a rotation of \<open>L\<close> or a rotation of the
  reversal of \<open>L\<close>.
\<close>

theorem node_list_round_trip:
  assumes "distinct L" and "3 \<le> length L" and "set es = node_list_to_edges L True"
  shows "\<exists>ns. to_node_list (Shape es None) = Inr ns \<and> same_cycle ns L"
proof -
  let ?s = "Shape es None"
  have ring: "simple_ring (edges ?s) L"
    using simple_ring_node_list_to_edges [OF assms(1,2)] assms(3) by (simp add: Shape_def)
  from to_node_list_loop_ring [OF ring] obtain M
    where loop: "to_node_list_loop (edges ?s) [Min (nodes ?s)] = Inr M"
      and cyc: "same_cycle M L" and len: "length M = length L" and set: "set M = nodes ?s"
    by blast
  from len assms(2) set have "nodes ?s \<noteq> {}" by auto
  with loop have "to_node_list ?s = Inr M"
    by (simp add: to_node_list_def Shape_def)
  with cyc show ?thesis by blast
qed

theorem node_list_round_trip_witness:
  "distinct [3, 1, 0, 2 :: int] \<and> 3 \<le> length [3, 1, 0, 2 :: int]
   \<and> set [Frozenset {3, 1}, Frozenset {1, 0}, Frozenset {0, 2}, Frozenset {2, 3}]
        = node_list_to_edges [3, 1, 0, 2 :: int] True
   \<and> (\<exists>ns. to_node_list
               (Shape [Frozenset {3, 1}, Frozenset {1, 0}, Frozenset {0, 2}, Frozenset {2, 3}]
                  None) = Inr ns
          \<and> same_cycle ns [3, 1, 0, 2 :: int])
   \<and> to_node_list
        (Shape [Frozenset {3, 1 :: int}, Frozenset {1, 0}, Frozenset {0, 2}, Frozenset {2, 3}]
           None) = Inr [0, 1, 3, 2]"
proof -
  have d: "distinct [3, 1, 0, 2 :: int]" and l: "3 \<le> length [3, 1, 0, 2 :: int]"
    by simp_all
  have e: "set [Frozenset {3, 1}, Frozenset {1, 0}, Frozenset {0, 2}, Frozenset {2, 3}]
        = node_list_to_edges [3, 1, 0, 2 :: int] True"
    unfolding node_list_to_edges_def Let_def if_True index_set_4
    by (simp add: insert_commute)
  have v: "to_node_list
        (Shape [Frozenset {3, 1 :: int}, Frozenset {1, 0}, Frozenset {0, 2}, Frozenset {2, 3}]
           None) = Inr [0, 1, 3, 2]"
    by code_simp
  from node_list_round_trip [OF d l e] d l e v show ?thesis
    by blast
qed

section \<open>The ring finder on two squares\<close>









end
